theory Spec2Isabelle
  imports Main "HOL-Library.Multiset" "HOL-Library.List_Lexorder" "HOL-Library.Product_Lexorder"
begin

section \<open>Monomial orderings of \<open>main.py\<close>\<close>

text \<open>
  A monomial is a Python list of integers (\<open>int list\<close>; Python integers are unbounded),
  a procedure \<open>P\<close> is a Python list of integer indices, a term collection is a list of
  monomials. The only exception the ordering code can raise on such inputs is
  \<open>IndexError\<close>, from a subscript out of range; every function that can raise returns
  \<open>error + 'a\<close>, with \<open>Inl\<close> for the exception.
\<close>

datatype error = IndexError

subsection \<open>Python list subscripts\<close>

text \<open>
  \<open>xs[i]\<close>: an index from \<open>0\<close> to \<open>len(xs) - 1\<close> reads from the front, an index from
  \<open>-len(xs)\<close> to \<open>-1\<close> reads from the end, anything else raises \<open>IndexError\<close>.
\<close>

definition getitem :: "'a list \<Rightarrow> int \<Rightarrow> error + 'a" where
  "getitem xs i =
     (let n = int (length xs) in
      if 0 \<le> i \<and> i < n then Inr (xs ! nat i)
      else if - n \<le> i \<and> i < 0 then Inr (xs ! nat (i + n))
      else Inl IndexError)"

text \<open>
  \<open>xs[c] = v\<close> for an index \<open>c\<close> that is a count (never negative): the list with slot
  \<open>c\<close> replaced, or \<open>IndexError\<close> when \<open>c\<close> is not below the length.
\<close>

definition setitem :: "'a list \<Rightarrow> nat \<Rightarrow> 'a \<Rightarrow> error + 'a list" where
  "setitem xs c v = (if c < length xs then Inr (xs[c := v]) else Inl IndexError)"

subsection \<open>Comparators\<close>

text \<open>
  \<open>compare_by_lex\<close>: the loop \<open>for i in range(len(P))\<close> reads \<open>P[i]\<close> front to back, so it
  is a recursion over the entries of \<open>P\<close>. Each round evaluates \<open>M1[P[i]]\<close>, then
  \<open>M2[P[i]]\<close>, and returns at the first strict difference.
\<close>

fun compare_by_lex :: "int list \<Rightarrow> int list \<Rightarrow> int list \<Rightarrow> error + int" where
  "compare_by_lex M1 M2 [] = Inr 0"
| "compare_by_lex M1 M2 (p # P) =
     (case getitem M1 p of
        Inl e \<Rightarrow> Inl e
      | Inr a \<Rightarrow>
         (case getitem M2 p of
            Inl e \<Rightarrow> Inl e
          | Inr b \<Rightarrow>
             if a < b then Inr (- 1)
             else if a > b then Inr 1
             else compare_by_lex M1 M2 P))"

text \<open>\<open>compare_by_glex\<close>: total degrees (\<open>sum\<close> over the whole vector) first, then lex.\<close>

definition compare_by_glex :: "int list \<Rightarrow> int list \<Rightarrow> int list \<Rightarrow> error + int" where
  "compare_by_glex M1 M2 P =
     (let deg1 = sum_list M1; deg2 = sum_list M2 in
      if deg1 < deg2 then Inr (- 1)
      else if deg1 > deg2 then Inr 1
      else compare_by_lex M1 M2 P)"

text \<open>
  The tie-break loop of \<open>compare_by_grevlex\<close>, \<open>for i in range(len(P)-1, -1, -1)\<close>, as a
  recursion over the entries it visits, in the order it visits them (the argument is
  \<open>rev P\<close>). The comparison is the inverted one: a larger exponent gives \<open>-1\<close>.
\<close>

fun grevlex_tiebreak :: "int list \<Rightarrow> int list \<Rightarrow> int list \<Rightarrow> error + int" where
  "grevlex_tiebreak M1 M2 [] = Inr 0"
| "grevlex_tiebreak M1 M2 (p # Q) =
     (case getitem M1 p of
        Inl e \<Rightarrow> Inl e
      | Inr a \<Rightarrow>
         (case getitem M2 p of
            Inl e \<Rightarrow> Inl e
          | Inr b \<Rightarrow>
             if a > b then Inr (- 1)
             else if a < b then Inr 1
             else grevlex_tiebreak M1 M2 Q))"

definition compare_by_grevlex :: "int list \<Rightarrow> int list \<Rightarrow> int list \<Rightarrow> error + int" where
  "compare_by_grevlex M1 M2 P =
     (let deg1 = sum_list M1; deg2 = sum_list M2 in
      if deg1 < deg2 then Inr (- 1)
      else if deg1 > deg2 then Inr 1
      else grevlex_tiebreak M1 M2 (rev P))"

subsection \<open>Ordering by counting\<close>

text \<open>
  The three \<open>determine_by_*\<close> functions have the same body and differ in the comparator
  they call, so the body is modelled once, with the comparator as a parameter.

  Inner loop, \<open>for j in range(n)\<close>: \<open>Count[i]\<close> grows by one for every \<open>Terms[j]\<close> with
  \<open>compare(Terms[i], Terms[j], Procedure) < 0\<close>. The first argument is \<open>Terms[i]\<close>, the
  list is the part of \<open>Terms\<close> still to visit, the last argument is \<open>Count[i]\<close> so far.
\<close>

type_synonym comparator = "int list \<Rightarrow> int list \<Rightarrow> int list \<Rightarrow> error + int"

fun count_row :: "comparator \<Rightarrow> int list \<Rightarrow> int list \<Rightarrow> int list list \<Rightarrow> nat \<Rightarrow> error + nat" where
  "count_row cmp Procedure t [] c = Inr c"
| "count_row cmp Procedure t (u # us) c =
     (case cmp t u Procedure of
        Inl e \<Rightarrow> Inl e
      | Inr r \<Rightarrow> count_row cmp Procedure t us (if r < 0 then c + 1 else c))"

text \<open>
  Outer loop, \<open>for i in range(n)\<close>: sets \<open>Count[i] = 0\<close> and runs the inner loop over all
  of \<open>Terms\<close>. The second list is the part of \<open>Terms\<close> whose counts are still to compute;
  the result is the \<open>Count\<close> array.
\<close>

fun count_all :: "comparator \<Rightarrow> int list \<Rightarrow> int list list \<Rightarrow> int list list \<Rightarrow> error + nat list" where
  "count_all cmp Procedure Terms [] = Inr []"
| "count_all cmp Procedure Terms (t # ts) =
     (case count_row cmp Procedure t Terms 0 of
        Inl e \<Rightarrow> Inl e
      | Inr c \<Rightarrow>
         (case count_all cmp Procedure Terms ts of
            Inl e \<Rightarrow> Inl e
          | Inr cs \<Rightarrow> Inr (c # cs)))"

text \<open>
  Placement loop, \<open>for i in range(n): TermsLex[Count[i]] = Terms[i]\<close>, over the pairs
  \<open>(Count[i], Terms[i])\<close> in input order. A slot is \<open>None\<close> until it is written; a later
  write to the same slot replaces the earlier one.
\<close>

fun place :: "(nat \<times> int list) list \<Rightarrow> int list option list \<Rightarrow> error + int list option list" where
  "place [] out = Inr out"
| "place ((c, t) # cts) out =
     (case setitem out c (Some t) of
        Inl e \<Rightarrow> Inl e
      | Inr out' \<Rightarrow> place cts out')"

definition determine_with :: "comparator \<Rightarrow> int list list \<Rightarrow> int list \<Rightarrow> error + int list option list" where
  "determine_with cmp Terms Procedure =
     (let n = length Terms;
          TermsOut = replicate n None in
      case count_all cmp Procedure Terms Terms of
        Inl e \<Rightarrow> Inl e
      | Inr Count \<Rightarrow> place (zip Count Terms) TermsOut)"

definition determine_by_lex :: "int list list \<Rightarrow> int list \<Rightarrow> error + int list option list" where
  "determine_by_lex Terms Procedure = determine_with compare_by_lex Terms Procedure"

definition determine_by_glex :: "int list list \<Rightarrow> int list \<Rightarrow> error + int list option list" where
  "determine_by_glex Terms Procedure = determine_with compare_by_glex Terms Procedure"

definition determine_by_grevlex :: "int list list \<Rightarrow> int list \<Rightarrow> error + int list option list" where
  "determine_by_grevlex Terms Procedure = determine_with compare_by_grevlex Terms Procedure"

subsection \<open>Vocabulary of the properties\<close>

text \<open>
  An index is in range for a list when the subscript does not raise; a procedure is
  indexable on a monomial when each of its entries is in range for it. A permutation of
  \<open>0..N-1\<close> is indexable on every monomial of length \<open>N\<close>.
\<close>

definition in_range :: "'a list \<Rightarrow> int \<Rightarrow> bool" where
  "in_range xs i = (- int (length xs) \<le> i \<and> i < int (length xs))"

definition indexable :: "int list \<Rightarrow> 'a list \<Rightarrow> bool" where
  "indexable P M = list_all (in_range M) P"

definition is_permutation :: "nat \<Rightarrow> int list \<Rightarrow> bool" where
  "is_permutation N P = (mset P = mset (map int [0..<N]))"

text \<open>The value a subscript reads when it is in range.\<close>

definition item :: "'a list \<Rightarrow> int \<Rightarrow> 'a" where
  "item xs i = (if 0 \<le> i then xs ! nat i else xs ! nat (i + int (length xs)))"

text \<open>The result of a three-way comparison in a linear order.\<close>

definition three_way :: "'a::linorder \<Rightarrow> 'a \<Rightarrow> int" where
  "three_way x y = (if x < y then - 1 else if y < x then 1 else 0)"

text \<open>
  Sort keys: each comparator, where it returns, is the three-way comparison of the keys
  of its two monomials. Lists are ordered lexicographically, pairs by the first component
  and then the second.
\<close>

definition lex_key :: "int list \<Rightarrow> int list \<Rightarrow> int list" where
  "lex_key P M = map (item M) P"

definition glex_key :: "int list \<Rightarrow> int list \<Rightarrow> int \<times> int list" where
  "glex_key P M = (sum_list M, lex_key P M)"

definition grevlex_key :: "int list \<Rightarrow> int list \<Rightarrow> int \<times> int list" where
  "grevlex_key P M = (sum_list M, map (\<lambda>p. - item M p) (rev P))"

text \<open>\<open>x\<close> occurs in \<open>xs\<close> at a position before some occurrence of \<open>y\<close>.\<close>

definition appears_before :: "'a \<Rightarrow> 'a \<Rightarrow> 'a list \<Rightarrow> bool" where
  "appears_before x y xs =
     list_ex (\<lambda>j. xs ! j = y \<and> list_ex (\<lambda>i. xs ! i = x) [0..<j]) [0..<length xs]"

text \<open>
  The ordering that Scenario A of the specification describes for the textbook input:
  \<open>[1,1,3]\<close> and \<open>[1,4,0]\<close> before \<open>[2,8,0]\<close> and \<open>[5,1,4]\<close>, and \<open>[5,1,4]\<close> last.
\<close>

definition scenario_A_described :: "error + int list option list \<Rightarrow> bool" where
  "scenario_A_described r =
     (case r of
        Inl e \<Rightarrow> False
      | Inr out \<Rightarrow>
          appears_before (Some [1, 1, 3]) (Some [2, 8, 0]) out \<and>
          appears_before (Some [1, 1, 3]) (Some [5, 1, 4]) out \<and>
          appears_before (Some [1, 4, 0]) (Some [2, 8, 0]) out \<and>
          appears_before (Some [1, 4, 0]) (Some [5, 1, 4]) out \<and>
          out \<noteq> [] \<and> last out = Some [5, 1, 4])"

text \<open>
  The three orderings, each comparator with the function that orders by it.
\<close>

definition orderings ::
  "(comparator \<times> (int list list \<Rightarrow> int list \<Rightarrow> error + int list option list)) set" where
  "orderings =
     {(compare_by_lex, determine_by_lex),
      (compare_by_glex, determine_by_glex),
      (compare_by_grevlex, determine_by_grevlex)}"

text \<open>Tests on what a comparator call gave; a call that raised passes none of them.\<close>

definition strictly_below :: "error + int \<Rightarrow> bool" where
  "strictly_below r = (case r of Inl e \<Rightarrow> False | Inr c \<Rightarrow> c < 0)"

definition at_most_zero :: "error + int \<Rightarrow> bool" where
  "at_most_zero r = (case r of Inl e \<Rightarrow> False | Inr c \<Rightarrow> c \<le> 0)"

definition at_least_zero :: "error + int \<Rightarrow> bool" where
  "at_least_zero r = (case r of Inl e \<Rightarrow> False | Inr c \<Rightarrow> 0 \<le> c)"

text \<open>
  \<open>greater_count\<close>: the number of terms \<open>u\<close> of the collection with \<open>compare(t, u, P) < 0\<close>,
  the terms strictly greater than \<open>t\<close>. \<open>less_count\<close>: the number of terms \<open>u\<close> with
  \<open>compare(u, t, P) < 0\<close>, the terms strictly less than \<open>t\<close> (the rank of the
  specification; \<open>t\<close> itself is never counted, so these are other terms).
\<close>

definition greater_count :: "comparator \<Rightarrow> int list list \<Rightarrow> int list \<Rightarrow> int list \<Rightarrow> nat" where
  "greater_count cmp Terms P t = length (filter (\<lambda>u. strictly_below (cmp t u P)) Terms)"

definition less_count :: "comparator \<Rightarrow> int list list \<Rightarrow> int list \<Rightarrow> int list \<Rightarrow> nat" where
  "less_count cmp Terms P t = length (filter (\<lambda>u. strictly_below (cmp u t P)) Terms)"

text \<open>The call returned a list whose slot \<open>c\<close> exists and holds the term \<open>t\<close>.\<close>

definition placed_at :: "error + int list option list \<Rightarrow> nat \<Rightarrow> int list \<Rightarrow> bool" where
  "placed_at r c t = (case r of Inl e \<Rightarrow> False | Inr out \<Rightarrow> c < length out \<and> out ! c = Some t)"

text \<open>
  No two terms at different positions compare equal (a comparator call that raises does
  not return \<open>0\<close>; the theorems below add that no call raises).
\<close>

definition pairwise_distinct_under :: "comparator \<Rightarrow> int list list \<Rightarrow> int list \<Rightarrow> bool" where
  "pairwise_distinct_under cmp Terms P =
     (\<forall>i < length Terms. \<forall>j < length Terms. i \<noteq> j \<longrightarrow> cmp (Terms ! i) (Terms ! j) P \<noteq> Inr 0)"

text \<open>
  \<open>ascending_adjacent\<close>: every adjacent pair satisfies \<open>compare(out[i], out[i+1], P) <= 0\<close>.
  \<open>descending_under\<close>: every pair of positions \<open>i < j\<close> satisfies
  \<open>compare(out[i], out[j], P) >= 0\<close>.
\<close>

definition ascending_adjacent :: "comparator \<Rightarrow> int list \<Rightarrow> int list list \<Rightarrow> bool" where
  "ascending_adjacent cmp P out =
     (\<forall>i < length out - 1. at_most_zero (cmp (out ! i) (out ! Suc i) P))"

definition descending_under :: "comparator \<Rightarrow> int list \<Rightarrow> int list list \<Rightarrow> bool" where
  "descending_under cmp P out =
     (\<forall>j < length out. \<forall>i < j. at_least_zero (cmp (out ! i) (out ! j) P))"

text \<open>
  For the analysis of the counting loops: \<open>keyed cmp P k Terms\<close> says that on the terms
  of the collection the comparator returns the three-way comparison of the keys \<open>k\<close>;
  \<open>key_count k xs t\<close> is the number of elements of
  \<open>xs\<close> whose key is above the key of \<open>t\<close>, and \<open>slot k xs p\<close> is the last element of \<open>xs\<close>
  with \<open>key_count\<close> equal to \<open>p\<close>, if there is one.
\<close>

definition keyed :: "comparator \<Rightarrow> int list \<Rightarrow> (int list \<Rightarrow> 'k::linorder) \<Rightarrow> int list list \<Rightarrow> bool" where
  "keyed cmp P k Terms =
     (\<forall>t\<in>set Terms. \<forall>u\<in>set Terms. cmp t u P = Inr (three_way (k t) (k u)))"

definition key_count :: "('a \<Rightarrow> 'k::linorder) \<Rightarrow> 'a list \<Rightarrow> 'a \<Rightarrow> nat" where
  "key_count k xs t = length (filter (\<lambda>u. k t < k u) xs)"

definition slot :: "('a \<Rightarrow> 'k::linorder) \<Rightarrow> 'a list \<Rightarrow> nat \<Rightarrow> 'a option" where
  "slot k xs p = map_of (rev (map (\<lambda>t. (key_count k xs t, t)) xs)) p"

section \<open>Subscripts\<close>

lemma getitem_in_range: "in_range xs i \<Longrightarrow> getitem xs i = Inr (item xs i)"
  by (auto simp: getitem_def in_range_def item_def Let_def)

lemma getitem_out_of_range: "\<not> in_range xs i \<Longrightarrow> getitem xs i = Inl IndexError"
  by (auto simp: getitem_def in_range_def Let_def)

lemma indexable_Nil [simp]: "indexable [] M"
  by (simp add: indexable_def)

lemma indexable_Cons [simp]: "indexable (p # P) M \<longleftrightarrow> in_range M p \<and> indexable P M"
  by (simp add: indexable_def)

lemma indexable_rev [simp]: "indexable (rev P) M \<longleftrightarrow> indexable P M"
  by (simp add: indexable_def list_all_iff)

lemma indexable_iff: "indexable P M \<longleftrightarrow> (\<forall>p\<in>set P. in_range M p)"
  by (simp add: indexable_def list_all_iff)

section \<open>Comparators\<close>

lemma three_way_refl [simp]: "three_way x x = 0"
  by (simp add: three_way_def)

lemma three_way_flip: "three_way y x = - three_way x y"
  by (auto simp: three_way_def)

lemma three_way_eq_0_iff: "three_way x y = 0 \<longleftrightarrow> x = y"
  by (auto simp: three_way_def)

lemma three_way_neg_iff: "three_way x y < 0 \<longleftrightarrow> x < y"
  by (auto simp: three_way_def)

lemma compare_by_lex_key:
  "indexable P M1 \<Longrightarrow> indexable P M2 \<Longrightarrow>
   compare_by_lex M1 M2 P = Inr (three_way (lex_key P M1) (lex_key P M2))"
proof (induction P)
  case Nil
  then show ?case by (simp add: lex_key_def)
next
  case (Cons p P)
  then have "compare_by_lex M1 M2 P = Inr (three_way (lex_key P M1) (lex_key P M2))"
    by simp
  with Cons.prems show ?case
    by (auto simp: getitem_in_range lex_key_def three_way_def)
qed

lemma grevlex_tiebreak_key:
  "indexable Q M1 \<Longrightarrow> indexable Q M2 \<Longrightarrow>
   grevlex_tiebreak M1 M2 Q =
     Inr (three_way (map (\<lambda>p. - item M1 p) Q) (map (\<lambda>p. - item M2 p) Q))"
proof (induction Q)
  case Nil
  then show ?case by simp
next
  case (Cons p Q)
  then have "grevlex_tiebreak M1 M2 Q =
      Inr (three_way (map (\<lambda>p. - item M1 p) Q) (map (\<lambda>p. - item M2 p) Q))"
    by simp
  with Cons.prems show ?case
    by (auto simp: getitem_in_range three_way_def)
qed

lemma compare_by_glex_key:
  assumes "indexable P M1" and "indexable P M2"
  shows "compare_by_glex M1 M2 P = Inr (three_way (glex_key P M1) (glex_key P M2))"
  using compare_by_lex_key [OF assms]
  by (auto simp: compare_by_glex_def glex_key_def three_way_def less_prod_def Let_def)

lemma compare_by_grevlex_key:
  assumes "indexable P M1" and "indexable P M2"
  shows "compare_by_grevlex M1 M2 P = Inr (three_way (grevlex_key P M1) (grevlex_key P M2))"
proof -
  have "indexable (rev P) M1" and "indexable (rev P) M2"
    using assms by simp_all
  from grevlex_tiebreak_key [OF this] show ?thesis
    by (auto simp: compare_by_grevlex_def grevlex_key_def three_way_def less_prod_def Let_def)
qed

text \<open>
  C4 (degree precedence). When the total degrees differ, \<open>compare_by_glex\<close> and
  \<open>compare_by_grevlex\<close> both return the sign of \<open>sum(M1) - sum(M2)\<close>, whatever \<open>P\<close> is
  (they return before \<open>P\<close> is read, so \<open>P\<close> need not even be in range).
\<close>

theorem degree_precedence:
  "sum_list M1 \<noteq> sum_list M2 \<Longrightarrow>
   compare_by_glex M1 M2 P = Inr (sgn (sum_list M1 - sum_list M2)) \<and>
   compare_by_grevlex M1 M2 P = Inr (sgn (sum_list M1 - sum_list M2))"
  by (simp add: compare_by_glex_def compare_by_grevlex_def Let_def)

theorem degree_precedence_witness:
  "sum_list [2, 8, 0] \<noteq> sum_list [1, 1, 3 :: int] \<and>
   compare_by_glex [2, 8, 0] [1, 1, 3] [2, 1, 0] = Inr 1 \<and>
   compare_by_grevlex [2, 8, 0] [1, 1, 3] [2, 1, 0] = Inr 1"
  using degree_precedence [of "[2, 8, 0]" "[1, 1, 3]" "[2, 1, 0]"] by simp

text \<open>
  C6 (glex falls back to lex). When the total degrees are equal, \<open>compare_by_glex\<close>
  returns what \<open>compare_by_lex\<close> returns on the same arguments, an \<open>IndexError\<close> included.
\<close>

theorem glex_tie_is_lex:
  "sum_list M1 = sum_list M2 \<Longrightarrow> compare_by_glex M1 M2 P = compare_by_lex M1 M2 P"
  by (simp add: compare_by_glex_def)

theorem glex_tie_is_lex_witness:
  "sum_list [2, 8, 0] = sum_list [5, 1, 4 :: int] \<and>
   compare_by_glex [2, 8, 0] [5, 1, 4] [2, 1, 0] = compare_by_lex [2, 8, 0] [5, 1, 4] [2, 1, 0] \<and>
   compare_by_lex [2, 8, 0] [5, 1, 4] [2, 1, 0] = Inr (- 1)"
  using glex_tie_is_lex [of "[2, 8, 0]" "[5, 1, 4]" "[2, 1, 0]"]
  by (simp add: getitem_def)

text \<open>
  C5 (antisymmetry, reflexivity). When every entry of \<open>P\<close> is in range for \<open>A\<close> and for
  \<open>B\<close> (as it is when \<open>P\<close> is a permutation of their index range), each comparator
  returns on \<open>(A, B)\<close> and on \<open>(B, A)\<close>, the two results are negations of each other, and
  each comparator returns \<open>0\<close> on \<open>(A, A)\<close>.
\<close>

theorem comparators_antisymmetric:
  assumes "indexable P A" and "indexable P B"
  shows "(\<exists>c. compare_by_lex A B P = Inr c \<and> compare_by_lex B A P = Inr (- c)) \<and>
         (\<exists>c. compare_by_glex A B P = Inr c \<and> compare_by_glex B A P = Inr (- c)) \<and>
         (\<exists>c. compare_by_grevlex A B P = Inr c \<and> compare_by_grevlex B A P = Inr (- c)) \<and>
         compare_by_lex A A P = Inr 0 \<and>
         compare_by_glex A A P = Inr 0 \<and>
         compare_by_grevlex A A P = Inr 0"
  using assms
  by (simp add: compare_by_lex_key compare_by_glex_key compare_by_grevlex_key
        three_way_flip [of _ "lex_key P A"] three_way_flip [of _ "glex_key P A"]
        three_way_flip [of _ "grevlex_key P A"])

theorem comparators_antisymmetric_witness:
  "indexable [2, 1, 0] [2, 8, 0 :: int] \<and> indexable [2, 1, 0] [5, 1, 4 :: int] \<and>
   compare_by_lex [2, 8, 0] [5, 1, 4] [2, 1, 0] = Inr (- 1) \<and>
   compare_by_lex [5, 1, 4] [2, 8, 0] [2, 1, 0] = Inr 1 \<and>
   compare_by_grevlex [2, 8, 0] [5, 1, 4] [2, 1, 0] = Inr 1 \<and>
   compare_by_grevlex [5, 1, 4] [2, 8, 0] [2, 1, 0] = Inr (- 1) \<and>
   compare_by_glex [2, 8, 0] [2, 8, 0] [2, 1, 0] = Inr 0"
  using comparators_antisymmetric [of "[2, 1, 0]" "[2, 8, 0]" "[5, 1, 4]"]
  by (simp add: in_range_def getitem_def compare_by_grevlex_def compare_by_glex_def)

text \<open>
  C9 (lex equality). When every entry of \<open>P\<close> is in range for \<open>M1\<close> and \<open>M2\<close>,
  \<open>compare_by_lex\<close> returns \<open>0\<close> exactly when \<open>M1[P[i]] == M2[P[i]]\<close> at every position
  \<open>i\<close> of \<open>P\<close>; with the empty \<open>P\<close> it returns \<open>0\<close> for every pair of vectors.
\<close>

theorem lex_zero_iff:
  assumes "indexable P M1" and "indexable P M2"
  shows "(compare_by_lex M1 M2 P = Inr 0 \<longleftrightarrow>
            (\<forall>i < length P. getitem M1 (P ! i) = getitem M2 (P ! i))) \<and>
         compare_by_lex M1 M2 [] = Inr 0"
proof -
  have "compare_by_lex M1 M2 P = Inr 0 \<longleftrightarrow> map (item M1) P = map (item M2) P"
    using assms by (simp add: compare_by_lex_key three_way_eq_0_iff lex_key_def)
  also have "\<dots> \<longleftrightarrow> (\<forall>p \<in> set P. getitem M1 p = getitem M2 p)"
    using assms by (auto simp: indexable_iff getitem_in_range)
  also have "\<dots> \<longleftrightarrow> (\<forall>i < length P. getitem M1 (P ! i) = getitem M2 (P ! i))"
    by (simp add: all_set_conv_all_nth)
  finally show ?thesis by simp
qed

theorem lex_zero_iff_witness:
  "indexable [0] [1, 5 :: int] \<and> indexable [0] [1, 7 :: int] \<and>
   compare_by_lex [1, 5] [1, 7] [0] = Inr 0 \<and>
   getitem [1, 5 :: int] ([0] ! 0) = getitem [1, 7] ([0] ! 0) \<and>
   [1, 5] \<noteq> [1, 7 :: int] \<and>
   compare_by_lex [1, 5] [1, 7] [] = Inr 0"
  using lex_zero_iff [of "[0]" "[1, 5]" "[1, 7]"]
  by (simp add: in_range_def getitem_def)

text \<open>
  A pair of vectors of one length that differ at a single coordinate, where the first has
  the larger exponent, cannot have equal total degree. The inversion property is
  therefore stated without "differ only at": the exponent at the last entry of \<open>P\<close>
  decides, whatever the other coordinates are.
\<close>

lemma sum_list_update_int:
  fixes xs :: "int list"
  shows "k < length xs \<Longrightarrow> sum_list (xs[k := x]) = sum_list xs + x - xs ! k"
  by (induction xs arbitrary: k) (auto split: nat.splits)

lemma single_coordinate_changes_degree:
  fixes M1 M2 :: "int list"
  assumes "length M1 = length M2" and "k < length M1"
    and "\<forall>i < length M1. i \<noteq> k \<longrightarrow> M1 ! i = M2 ! i" and "M2 ! k < M1 ! k"
  shows "sum_list M2 < sum_list M1"
proof -
  have "M1 = M2[k := M1 ! k]"
    using assms by (intro nth_equalityI) (auto simp: nth_list_update)
  then have "sum_list M1 = sum_list (M2[k := M1 ! k])" by simp
  also have "\<dots> = sum_list M2 + M1 ! k - M2 ! k"
    using assms by (simp add: sum_list_update_int)
  finally show ?thesis using assms by simp
qed

text \<open>
  C7 (grevlex tie-break inversion). For \<open>M1\<close>, \<open>M2\<close> of equal total degree, when the
  exponent of \<open>M1\<close> at the last entry of \<open>P\<close> is strictly greater than that of \<open>M2\<close>,
  \<open>compare_by_grevlex(M1, M2, P)\<close> is \<open>-1\<close>. This covers every pair that differs only at
  that coordinate.
\<close>

theorem grevlex_inversion:
  assumes "P \<noteq> []" and "sum_list M1 = sum_list M2"
    and "getitem M1 (last P) = Inr a" and "getitem M2 (last P) = Inr b" and "b < a"
  shows "compare_by_grevlex M1 M2 P = Inr (- 1)"
proof -
  from assms(1) obtain Q where Q: "rev P = last P # Q"
    by (cases P rule: rev_cases) auto
  have "grevlex_tiebreak M1 M2 (last P # Q) = Inr (- 1)"
    using assms(3-5) by simp
  then have "grevlex_tiebreak M1 M2 (rev P) = Inr (- 1)"
    by (simp only: Q)
  then show ?thesis
    using assms(2) by (simp add: compare_by_grevlex_def)
qed

theorem grevlex_inversion_witness:
  "[0, 1] \<noteq> ([] :: int list) \<and> sum_list [0, 2] = sum_list [2, 0 :: int] \<and>
   getitem [0, 2 :: int] (last [0, 1]) = Inr 2 \<and> getitem [2, 0 :: int] (last [0, 1]) = Inr 0 \<and>
   (0 :: int) < 2 \<and> compare_by_grevlex [0, 2] [2, 0] [0, 1] = Inr (- 1)"
  using grevlex_inversion [of "[0, 1]" "[0, 2]" "[2, 0]" 2 0]
  by (simp add: getitem_def)

section \<open>The counting loops\<close>

text \<open>
  Where the comparator is the three-way comparison of keys on the terms of the
  collection, the loops do not raise: the counts are the \<open>key_count\<close>s, each below
  \<open>n\<close>, and the returned list holds \<open>slot k Terms p\<close> at every position \<open>p\<close>.
\<close>

lemma count_row_key:
  assumes "\<forall>u\<in>set us. cmp t u P = Inr (three_way (k t) (k u))"
  shows "count_row cmp P t us c = Inr (c + key_count k us t)"
  using assms by (induction us arbitrary: c) (simp_all add: key_count_def three_way_neg_iff)

lemma count_all_key:
  assumes "\<forall>t\<in>set ts. \<forall>u\<in>set Terms. cmp t u P = Inr (three_way (k t) (k u))"
  shows "count_all cmp P Terms ts = Inr (map (key_count k Terms) ts)"
  using assms by (induction ts) (simp_all add: count_row_key [where k = k])

lemma place_slots:
  assumes "\<forall>(c, t)\<in>set cts. c < length out"
  shows "\<exists>out'. place cts out = Inr out' \<and> length out' = length out \<and>
           (\<forall>p < length out. out' ! p =
              (case map_of (rev cts) p of Some t \<Rightarrow> Some t | None \<Rightarrow> out ! p))"
  using assms
proof (induction cts arbitrary: out)
  case Nil
  then show ?case by simp
next
  case (Cons ct cts)
  obtain c t where ct: "ct = (c, t)" by (cases ct)
  from Cons.prems ct have c: "c < length out" by simp
  from Cons.prems have "\<forall>(c', t')\<in>set cts. c' < length (out[c := Some t])" by simp
  from Cons.IH [OF this] obtain out' where
    out': "place cts (out[c := Some t]) = Inr out'" "length out' = length out"
      "\<forall>p < length out. out' ! p =
          (case map_of (rev cts) p of Some t' \<Rightarrow> Some t' | None \<Rightarrow> out[c := Some t] ! p)"
    by auto
  have "place (ct # cts) out = Inr out'"
    using c out'(1) by (simp add: ct setitem_def)
  moreover have "out' ! p =
      (case map_of (rev (ct # cts)) p of Some t' \<Rightarrow> Some t' | None \<Rightarrow> out ! p)"
    if "p < length out" for p
    using that out'(3) c
    by (auto simp: ct map_add_def nth_list_update split: option.splits)
  ultimately show ?case using out'(2) by blast
qed

lemma key_count_less:
  "t \<in> set xs \<Longrightarrow> key_count k xs t < length xs"
  unfolding key_count_def by (rule length_filter_less [where x = t]) simp_all

lemma determine_with_key:
  assumes "keyed cmp P k Terms"
  shows "determine_with cmp Terms P = Inr (map (slot k Terms) [0..<length Terms])"
proof -
  let ?cts = "map (\<lambda>t. (key_count k Terms t, t)) Terms"
  have cts: "zip (map (key_count k Terms) Terms) Terms = ?cts"
    by (simp add: zip_map1 zip_same_conv_map)
  have "\<forall>(c, t)\<in>set ?cts. c < length (replicate (length Terms) (None :: int list option))"
    by (auto simp: key_count_less)
  from place_slots [OF this] obtain out where
    out: "place ?cts (replicate (length Terms) None) = Inr out"
      "length out = length (replicate (length Terms) (None :: int list option))"
      "\<forall>p < length (replicate (length Terms) (None :: int list option)). out ! p =
         (case map_of (rev ?cts) p of Some t \<Rightarrow> Some t
          | None \<Rightarrow> replicate (length Terms) None ! p)"
    by blast
  have "out = map (slot k Terms) [0..<length Terms]"
    using out(2,3) by (intro nth_equalityI) (auto simp: slot_def split: option.splits)
  moreover have "count_all cmp P Terms Terms = Inr (map (key_count k Terms) Terms)"
    using assms count_all_key [where cmp = cmp and P = P and k = k and Terms = Terms and ts = Terms]
    unfolding keyed_def by blast
  ultimately show ?thesis
    using out(1) by (simp add: determine_with_def cts)
qed

lemma slot_SomeD:
  "slot k xs p = Some t \<Longrightarrow> t \<in> set xs \<and> key_count k xs t = p"
  by (auto simp: slot_def dest!: map_of_SomeD)

lemma slot_key_count:
  assumes "t \<in> set xs"
  shows "\<exists>t'. slot k xs (key_count k xs t) = Some t'"
proof -
  have "key_count k xs t \<in> fst ` set (rev (map (\<lambda>t. (key_count k xs t, t)) xs))"
    using assms by force
  then have "slot k xs (key_count k xs t) \<noteq> None"
    unfolding slot_def by (simp only: map_of_eq_None_iff not_not)
  then show ?thesis by auto
qed

lemma length_filter_mono:
  "(\<And>x. x \<in> set xs \<Longrightarrow> Q x \<Longrightarrow> R x) \<Longrightarrow> length (filter Q xs) \<le> length (filter R xs)"
  by (induction xs) auto

lemma length_filter_strict_mono:
  assumes "\<And>x. x \<in> set xs \<Longrightarrow> Q x \<Longrightarrow> R x" and "y \<in> set xs" and "R y" and "\<not> Q y"
  shows "length (filter Q xs) < length (filter R xs)"
  using assms
proof (induction xs)
  case Nil
  then show ?case by simp
next
  case (Cons x xs)
  have le: "length (filter Q xs) \<le> length (filter R xs)"
    using Cons.prems(1) by (intro length_filter_mono) simp_all
  show ?case
  proof (cases "y = x")
    case True
    with Cons.prems le show ?thesis by simp
  next
    case False
    with Cons have "length (filter Q xs) < length (filter R xs)" by simp
    with Cons.prems(1) show ?thesis by auto
  qed
qed

lemma key_count_strict_antimono:
  assumes "k a < k b" and "b \<in> set xs"
  shows "key_count k xs b < key_count k xs a"
  unfolding key_count_def
  using assms by (intro length_filter_strict_mono [where y = b]) auto

lemma key_count_eq_imp_key_eq:
  assumes "key_count k xs a = key_count k xs b" and "a \<in> set xs" and "b \<in> set xs"
  shows "k a = k b"
  using key_count_strict_antimono [of k a b xs] key_count_strict_antimono [of k b a xs] assms
  by (metis less_irrefl_nat linorder_neqE)

lemma greater_count_key:
  assumes "\<forall>u\<in>set Terms. cmp t u P = Inr (three_way (k t) (k u))"
  shows "greater_count cmp Terms P t = key_count k Terms t"
proof -
  have "filter (\<lambda>u. strictly_below (cmp t u P)) Terms = filter (\<lambda>u. k t < k u) Terms"
    using assms by (intro filter_cong) (simp_all add: strictly_below_def three_way_neg_iff)
  then show ?thesis by (simp add: greater_count_def key_count_def)
qed

lemma determine_with_slots:
  assumes "keyed cmp P k Terms"
  shows "\<exists>out. determine_with cmp Terms P = Inr out \<and> length out = length Terms \<and>
           (\<forall>s\<in>set out. s = None \<or> (\<exists>t\<in>set Terms. s = Some t))"
proof -
  have "s = None \<or> (\<exists>t\<in>set Terms. s = Some t)"
    if "s \<in> set (map (slot k Terms) [0..<length Terms])" for s
  proof (cases s)
    case None
    then show ?thesis by simp
  next
    case (Some t)
    with that obtain p where "slot k Terms p = Some t" by auto
    then have "t \<in> set Terms" by (simp add: slot_SomeD)
    with Some show ?thesis by simp
  qed
  then show ?thesis
    by (simp add: determine_with_key [OF assms])
qed

lemma determine_with_placed:
  assumes rep: "keyed cmp P k Terms"
    and inj: "\<And>a b. a \<in> set Terms \<Longrightarrow> b \<in> set Terms \<Longrightarrow> k a = k b \<Longrightarrow> a = b"
    and t: "t \<in> set Terms"
  shows "placed_at (determine_with cmp Terms P) (greater_count cmp Terms P t) t"
proof -
  let ?c = "key_count k Terms t"
  have c: "?c < length Terms" using t by (rule key_count_less)
  from slot_key_count [OF t] obtain t' where t': "slot k Terms ?c = Some t'" by blast
  then have mem: "t' \<in> set Terms" and eq: "key_count k Terms t' = ?c"
    by (simp_all add: slot_SomeD)
  have "k t' = k t"
    using eq mem t by (rule key_count_eq_imp_key_eq)
  with inj \<open>t' \<in> set Terms\<close> t have "t' = t" by blast
  moreover have "\<forall>u\<in>set Terms. cmp t u P = Inr (three_way (k t) (k u))"
    using rep t by (simp add: keyed_def)
  then have "greater_count cmp Terms P t = ?c"
    by (rule greater_count_key)
  ultimately show ?thesis
    using c t' by (simp add: placed_at_def determine_with_key [OF rep])
qed

section \<open>Permutations of the index range\<close>

text \<open>
  A permutation of \<open>0..N-1\<close> reads every coordinate of a vector of length \<open>N\<close>, so two
  such vectors with the same key are the same vector.
\<close>

lemma is_permutation_set: "is_permutation N P \<Longrightarrow> set P = int ` {0..<N}"
  unfolding is_permutation_def by (drule mset_eq_setD) simp

lemma permutation_indexable:
  assumes "is_permutation N P" and "length M = N"
  shows "indexable P M"
  using is_permutation_set [OF assms(1)] assms(2)
  by (auto simp: indexable_iff in_range_def)

lemma permutation_items_eq:
  assumes "is_permutation N P" and "length a = N" and "length b = N"
    and "\<forall>p\<in>set P. item a p = item b p"
  shows "a = b"
proof (rule nth_equalityI)
  show "length a = length b" using assms by simp
next
  fix i assume "i < length a"
  then have "int i \<in> set P"
    using is_permutation_set [OF assms(1)] assms(2) by simp
  with assms(4) have "item a (int i) = item b (int i)" by blast
  then show "a ! i = b ! i" by (simp add: item_def)
qed

lemma lex_key_inj:
  assumes "is_permutation N P" and "length a = N" and "length b = N"
    and "lex_key P a = lex_key P b"
  shows "a = b"
  using assms by (intro permutation_items_eq [OF assms(1-3)]) (simp add: lex_key_def)

lemma glex_key_inj:
  assumes "is_permutation N P" and "length a = N" and "length b = N"
    and "glex_key P a = glex_key P b"
  shows "a = b"
  using assms by (intro lex_key_inj [OF assms(1-3)]) (simp add: glex_key_def)

lemma grevlex_key_inj:
  assumes "is_permutation N P" and "length a = N" and "length b = N"
    and "grevlex_key P a = grevlex_key P b"
  shows "a = b"
  using assms by (intro permutation_items_eq [OF assms(1-3)]) (simp add: grevlex_key_def)

section \<open>Distinct keys: the output is sorted\<close>

text \<open>
  With pairwise distinct keys the counts are a bijection onto the positions, and the
  returned list is the collection sorted by key from the largest to the smallest.
\<close>

lemma keyed_lex: "\<forall>t\<in>set Terms. indexable P t \<Longrightarrow> keyed compare_by_lex P (lex_key P) Terms"
  by (simp add: keyed_def compare_by_lex_key)

lemma keyed_glex: "\<forall>t\<in>set Terms. indexable P t \<Longrightarrow> keyed compare_by_glex P (glex_key P) Terms"
  by (simp add: keyed_def compare_by_glex_key)

lemma keyed_grevlex:
  "\<forall>t\<in>set Terms. indexable P t \<Longrightarrow> keyed compare_by_grevlex P (grevlex_key P) Terms"
  by (simp add: keyed_def compare_by_grevlex_key)

lemma key_count_descending:
  assumes "sorted_wrt (\<lambda>a b. k b < k a) S" and "p < length S"
  shows "key_count k S (S ! p) = p"
  using assms
proof (induction S arbitrary: p)
  case Nil
  then show ?case by simp
next
  case (Cons x xs)
  from Cons.prems(1) have below: "\<forall>u\<in>set xs. k u < k x" and sorted: "sorted_wrt (\<lambda>a b. k b < k a) xs"
    by simp_all
  show ?case
  proof (cases p)
    case 0
    have "filter (\<lambda>u. k x < k u) xs = []"
      using below by (auto simp: filter_empty_conv)
    with 0 show ?thesis by (simp add: key_count_def)
  next
    case (Suc q)
    with Cons.prems(2) have q: "q < length xs" by simp
    then have "k (xs ! q) < k x" using below by simp
    moreover have "key_count k xs (xs ! q) = q"
      using sorted q by (rule Cons.IH)
    ultimately show ?thesis using Suc by (simp add: key_count_def)
  qed
qed

lemma key_count_mset:
  assumes "mset xs = mset ys"
  shows "key_count k xs t = key_count k ys t"
proof -
  have "length (filter Q xs) = size (filter_mset Q (mset xs))" for Q :: "'a \<Rightarrow> bool" and xs
    by (simp flip: mset_filter)
  then show ?thesis by (simp add: key_count_def assms)
qed

lemma descending_sort_key:
  assumes "distinct (map k xs)"
  shows "sorted_wrt (\<lambda>a b. k b < k a) (rev (sort_key k xs))"
proof -
  have "distinct (map k (sort_key k xs)) \<longleftrightarrow> distinct (map k xs)"
    by (rule mset_eq_imp_distinct_iff) simp
  with assms have "distinct (map k (sort_key k xs))" by simp
  moreover have "sorted (map k (sort_key k xs))" by (rule sorted_sort_key)
  ultimately have "sorted_wrt (<) (map k (sort_key k xs))"
    by (simp only: strict_sorted_iff)
  then have "sorted_wrt (\<lambda>a b. k a < k b) (sort_key k xs)"
    by (simp only: sorted_wrt_map)
  then show ?thesis by (simp only: sorted_wrt_rev)
qed

lemma determine_with_sorted:
  assumes rep: "keyed cmp P k Terms" and dist: "distinct (map k Terms)"
  shows "determine_with cmp Terms P = Inr (map Some (rev (sort_key k Terms)))"
proof -
  define S where "S = rev (sort_key k Terms)"
  have S1: "mset S = mset Terms" and S2: "set S = set Terms" and S3: "length S = length Terms"
    by (simp_all add: S_def)
  have desc: "sorted_wrt (\<lambda>a b. k b < k a) S"
    unfolding S_def using dist by (rule descending_sort_key)
  have inj: "inj_on k (set Terms)" using dist by (simp add: distinct_map)
  have "slot k Terms p = Some (S ! p)" if p: "p < length Terms" for p
  proof -
    from p S3 have pS: "p < length S" by simp
    then have "S ! p \<in> set S" by (rule nth_mem)
    then have mem: "S ! p \<in> set Terms" by (simp only: S2)
    have "key_count k Terms (S ! p) = key_count k S (S ! p)"
      using S1 [symmetric] by (rule key_count_mset)
    also have "\<dots> = p" using desc pS by (rule key_count_descending)
    finally have cnt: "key_count k Terms (S ! p) = p" .
    from slot_key_count [OF mem, of k] obtain t' where "slot k Terms (key_count k Terms (S ! p)) = Some t'"
      by blast
    then have t': "slot k Terms p = Some t'" by (simp only: cnt)
    then have mem': "t' \<in> set Terms" and cnt': "key_count k Terms t' = p"
      by (simp_all add: slot_SomeD)
    from cnt' cnt have "key_count k Terms t' = key_count k Terms (S ! p)" by simp
    then have "k t' = k (S ! p)" using mem' mem by (rule key_count_eq_imp_key_eq)
    with inj mem' mem have "t' = S ! p" by (simp add: inj_on_def)
    with t' show ?thesis by simp
  qed
  then have "map (slot k Terms) [0..<length Terms] = map Some S"
    using S3 by (intro nth_equalityI) simp_all
  then show ?thesis by (simp add: determine_with_key [OF rep] S_def)
qed

lemma descending_under_sorted:
  assumes rep: "keyed cmp P k Terms" and dist: "distinct (map k Terms)"
  shows "descending_under cmp P (rev (sort_key k Terms))"
proof -
  define S where "S = rev (sort_key k Terms)"
  have S2: "set S = set Terms" by (simp add: S_def)
  have desc: "sorted_wrt (\<lambda>a b. k b < k a) S"
    unfolding S_def using dist by (rule descending_sort_key)
  have "at_least_zero (cmp (S ! i) (S ! j) P)" if j: "j < length S" and i: "i < j" for i j
  proof -
    have "k (S ! j) < k (S ! i)"
      using desc i j by (rule sorted_wrt_nth_less)
    moreover have "S ! i \<in> set S" "S ! j \<in> set S"
      using i j by simp_all
    then have "S ! i \<in> set Terms" "S ! j \<in> set Terms" by (simp_all only: S2)
    then have "cmp (S ! i) (S ! j) P = Inr (three_way (k (S ! i)) (k (S ! j)))"
      using rep by (simp add: keyed_def)
    ultimately show ?thesis
      by (simp add: at_least_zero_def three_way_def)
  qed
  then have "descending_under cmp P S" by (simp add: descending_under_def)
  then show ?thesis by (simp only: S_def)
qed

lemma distinct_keys:
  assumes rep: "keyed cmp P k Terms" and dist: "pairwise_distinct_under cmp Terms P"
  shows "distinct (map k Terms)"
proof -
  have "k (Terms ! i) \<noteq> k (Terms ! j)" if "i < length Terms" "j < length Terms" "i \<noteq> j" for i j
  proof -
    have "cmp (Terms ! i) (Terms ! j) P = Inr (three_way (k (Terms ! i)) (k (Terms ! j)))"
      using rep that by (simp add: keyed_def)
    moreover have "cmp (Terms ! i) (Terms ! j) P \<noteq> Inr 0"
      using dist that by (simp add: pairwise_distinct_under_def)
    ultimately show ?thesis by (auto simp: three_way_eq_0_iff)
  qed
  then show ?thesis by (simp add: distinct_conv_nth)
qed

lemma determine_with_descending:
  assumes rep: "keyed cmp P k Terms" and dist: "pairwise_distinct_under cmp Terms P"
  shows "\<exists>out. determine_with cmp Terms P = Inr (map Some out) \<and> mset out = mset Terms \<and>
           descending_under cmp P out"
proof -
  have d: "distinct (map k Terms)" using rep dist by (rule distinct_keys)
  show ?thesis
    using determine_with_sorted [OF rep d] descending_under_sorted [OF rep d]
    by (intro exI [of _ "rev (sort_key k Terms)"]) simp
qed

section \<open>The three orderings\<close>

lemma orderings_cases:
  assumes "(cmp, det) \<in> orderings"
  obtains "cmp = compare_by_lex" "det = determine_by_lex"
  | "cmp = compare_by_glex" "det = determine_by_glex"
  | "cmp = compare_by_grevlex" "det = determine_by_grevlex"
  using assms unfolding orderings_def by auto

text \<open>
  C1 (ranking correctness), as the specification words it, fails: the terms \<open>[0]\<close> and
  \<open>[1]\<close> are distinct under each comparator with \<open>P = [0]\<close>, each \<open>determine_by_*\<close>
  returns \<open>[[1], [0]]\<close>, and the adjacent pair \<open>([1], [0])\<close> does not satisfy
  \<open>compare <= 0\<close>.
\<close>

theorem ascending_counterexample:
  "pairwise_distinct_under compare_by_lex [[0], [1]] [0] \<and>
   determine_by_lex [[0], [1]] [0] = Inr (map Some [[1], [0]]) \<and>
   \<not> ascending_adjacent compare_by_lex [0] [[1], [0]] \<and>
   pairwise_distinct_under compare_by_glex [[0], [1]] [0] \<and>
   determine_by_glex [[0], [1]] [0] = Inr (map Some [[1], [0]]) \<and>
   \<not> ascending_adjacent compare_by_glex [0] [[1], [0]] \<and>
   pairwise_distinct_under compare_by_grevlex [[0], [1]] [0] \<and>
   determine_by_grevlex [[0], [1]] [0] = Inr (map Some [[1], [0]]) \<and>
   \<not> ascending_adjacent compare_by_grevlex [0] [[1], [0]]"
  by code_simp

text \<open>
  C1 (ranking correctness), amended: the order is descending. For every term collection
  and every \<open>P\<close> whose entries are in range for every term (every permutation of the
  index range of terms of one length is such a \<open>P\<close>), if the terms are pairwise distinct
  under the comparator, then each \<open>determine_by_*\<close> returns a list with no empty slot
  that is a permutation of the input, and for any two positions \<open>i < j\<close> of it (adjacent
  ones in particular) \<open>compare_by_*(out[i], out[j], P) >= 0\<close>.
\<close>

theorem determine_descending_when_distinct:
  assumes "(cmp, det) \<in> orderings"
    and idx: "\<forall>t\<in>set Terms. indexable P t"
    and dist: "pairwise_distinct_under cmp Terms P"
  shows "\<exists>out. det Terms P = Inr (map Some out) \<and> mset out = mset Terms \<and>
           descending_under cmp P out"
  using assms(1)
proof (cases rule: orderings_cases)
  case 1
  from dist have "pairwise_distinct_under compare_by_lex Terms P" by (simp only: 1)
  with keyed_lex [OF idx]
  have "\<exists>out. determine_with compare_by_lex Terms P = Inr (map Some out) \<and>
          mset out = mset Terms \<and> descending_under compare_by_lex P out"
    by (rule determine_with_descending)
  then show ?thesis by (simp only: 1 determine_by_lex_def)
next
  case 2
  from dist have "pairwise_distinct_under compare_by_glex Terms P" by (simp only: 2)
  with keyed_glex [OF idx]
  have "\<exists>out. determine_with compare_by_glex Terms P = Inr (map Some out) \<and>
          mset out = mset Terms \<and> descending_under compare_by_glex P out"
    by (rule determine_with_descending)
  then show ?thesis by (simp only: 2 determine_by_glex_def)
next
  case 3
  from dist have "pairwise_distinct_under compare_by_grevlex Terms P" by (simp only: 3)
  with keyed_grevlex [OF idx]
  have "\<exists>out. determine_with compare_by_grevlex Terms P = Inr (map Some out) \<and>
          mset out = mset Terms \<and> descending_under compare_by_grevlex P out"
    by (rule determine_with_descending)
  then show ?thesis by (simp only: 3 determine_by_grevlex_def)
qed

theorem determine_descending_when_distinct_witness:
  "(compare_by_grevlex, determine_by_grevlex) \<in> orderings \<and>
   list_all (indexable [2, 1, 0]) [[2, 8, 0], [5, 1, 4], [1, 1, 3], [1, 4, 0 :: int]] \<and>
   pairwise_distinct_under compare_by_grevlex [[2, 8, 0], [5, 1, 4], [1, 1, 3], [1, 4, 0]] [2, 1, 0] \<and>
   (\<exists>out. determine_by_grevlex [[2, 8, 0], [5, 1, 4], [1, 1, 3], [1, 4, 0]] [2, 1, 0] = Inr (map Some out) \<and>
      mset out = mset [[2, 8, 0], [5, 1, 4], [1, 1, 3], [1, 4, 0]] \<and>
      descending_under compare_by_grevlex [2, 1, 0] out)"
proof -
  have h1: "(compare_by_grevlex, determine_by_grevlex) \<in> orderings"
    by (simp add: orderings_def)
  have h2: "\<forall>t\<in>set [[2, 8, 0], [5, 1, 4], [1, 1, 3], [1, 4, 0]]. indexable [2, 1, 0] t"
    by (simp add: in_range_def)
  have h3: "pairwise_distinct_under compare_by_grevlex
              [[2, 8, 0], [5, 1, 4], [1, 1, 3], [1, 4, 0]] [2, 1, 0]"
    by code_simp
  from determine_descending_when_distinct [OF h1 h2 h3] h1 h2 h3 show ?thesis
    by (simp add: list_all_iff)
qed

text \<open>
  C2 (rank-based placement), as the specification words it, fails: for
  \<open>Terms = [[0], [1]]\<close> and \<open>P = [0]\<close> no other term is strictly less than \<open>Terms[0]\<close>,
  so its rank is \<open>0\<close>, and slot \<open>0\<close> of the result does not hold it.
\<close>

theorem less_count_counterexample:
  "\<not> placed_at (determine_by_lex [[0], [1]] [0])
        (less_count compare_by_lex [[0], [1]] [0] ([[0], [1]] ! 0)) ([[0], [1]] ! 0) \<and>
   \<not> placed_at (determine_by_glex [[0], [1]] [0])
        (less_count compare_by_glex [[0], [1]] [0] ([[0], [1]] ! 0)) ([[0], [1]] ! 0) \<and>
   \<not> placed_at (determine_by_grevlex [[0], [1]] [0])
        (less_count compare_by_grevlex [[0], [1]] [0] ([[0], [1]] ! 0)) ([[0], [1]] ! 0)"
  by code_simp

text \<open>
  C2 (rank-based placement), amended: the position is the count of the terms strictly
  greater. For every collection of terms of one length \<open>N\<close>, every permutation \<open>P\<close> of
  \<open>0..N-1\<close> and every index \<open>i\<close>, each \<open>determine_by_*\<close> returns a list whose slot number
  \<open>greater_count\<close> of \<open>Terms[i]\<close> (the number of \<open>j\<close> with
  \<open>compare(Terms[i], Terms[j], P) < 0\<close>) holds the vector \<open>Terms[i]\<close>.
\<close>

theorem placed_at_greater_count:
  assumes "(cmp, det) \<in> orderings"
    and len: "\<forall>t\<in>set Terms. length t = N"
    and perm: "is_permutation N P"
    and i: "i < length Terms"
  shows "placed_at (det Terms P) (greater_count cmp Terms P (Terms ! i)) (Terms ! i)"
proof -
  have idx: "\<forall>t\<in>set Terms. indexable P t"
    using len perm by (auto intro: permutation_indexable)
  have t: "Terms ! i \<in> set Terms" using i by simp
  from assms(1) show ?thesis
  proof (cases rule: orderings_cases)
    case 1
    have "placed_at (determine_with compare_by_lex Terms P)
            (greater_count compare_by_lex Terms P (Terms ! i)) (Terms ! i)"
    proof (rule determine_with_placed [OF keyed_lex [OF idx] _ t])
      fix a b assume a: "a \<in> set Terms" and b: "b \<in> set Terms"
        and eq: "lex_key P a = lex_key P b"
      from len a b have "length a = N" and "length b = N" by simp_all
      with perm show "a = b" using eq by (rule lex_key_inj)
    qed
    with 1 show ?thesis by (simp only: determine_by_lex_def)
  next
    case 2
    have "placed_at (determine_with compare_by_glex Terms P)
            (greater_count compare_by_glex Terms P (Terms ! i)) (Terms ! i)"
    proof (rule determine_with_placed [OF keyed_glex [OF idx] _ t])
      fix a b assume a: "a \<in> set Terms" and b: "b \<in> set Terms"
        and eq: "glex_key P a = glex_key P b"
      from len a b have "length a = N" and "length b = N" by simp_all
      with perm show "a = b" using eq by (rule glex_key_inj)
    qed
    with 2 show ?thesis by (simp only: determine_by_glex_def)
  next
    case 3
    have "placed_at (determine_with compare_by_grevlex Terms P)
            (greater_count compare_by_grevlex Terms P (Terms ! i)) (Terms ! i)"
    proof (rule determine_with_placed [OF keyed_grevlex [OF idx] _ t])
      fix a b assume a: "a \<in> set Terms" and b: "b \<in> set Terms"
        and eq: "grevlex_key P a = grevlex_key P b"
      from len a b have "length a = N" and "length b = N" by simp_all
      with perm show "a = b" using eq by (rule grevlex_key_inj)
    qed
    with 3 show ?thesis by (simp only: determine_by_grevlex_def)
  qed
qed

theorem placed_at_greater_count_witness:
  "(compare_by_lex, determine_by_lex) \<in> orderings \<and>
   list_all (\<lambda>t. length t = 3) [[2, 8, 0], [5, 1, 4], [1, 1, 3], [1, 4, 0 :: int]] \<and>
   is_permutation 3 [2, 1, 0] \<and>
   2 < length [[2, 8, 0], [5, 1, 4], [1, 1, 3], [1, 4, 0 :: int]] \<and>
   greater_count compare_by_lex [[2, 8, 0], [5, 1, 4], [1, 1, 3], [1, 4, 0]] [2, 1, 0] [1, 1, 3] = 1 \<and>
   placed_at (determine_by_lex [[2, 8, 0], [5, 1, 4], [1, 1, 3], [1, 4, 0]] [2, 1, 0]) 1 [1, 1, 3]"
proof -
  have h1: "(compare_by_lex, determine_by_lex) \<in> orderings"
    by (simp add: orderings_def)
  have h2: "\<forall>t\<in>set [[2, 8, 0], [5, 1, 4], [1, 1, 3], [1, 4, 0 :: int]]. length t = 3"
    by simp
  have h3: "is_permutation 3 [2, 1, 0]"
    by code_simp
  have h4: "2 < length [[2, 8, 0], [5, 1, 4], [1, 1, 3], [1, 4, 0 :: int]]"
    by simp
  have c: "greater_count compare_by_lex [[2, 8, 0], [5, 1, 4], [1, 1, 3], [1, 4, 0]] [2, 1, 0] [1, 1, 3] = 1"
    by code_simp
  from placed_at_greater_count [OF h1 h2 h3 h4] h1 h2 h3 h4 c show ?thesis
    by simp
qed

text \<open>
  C10 (length and slots). For every term collection, the empty one and those with ties
  or duplicates included, and every \<open>P\<close> whose entries are in range for every term (every
  permutation of the index range is), each \<open>determine_by_*\<close> returns a list as long as
  \<open>Terms\<close> in which every slot is either unfilled or holds a vector of \<open>Terms\<close>.
\<close>

theorem determine_length_and_slots:
  assumes "(cmp, det) \<in> orderings"
    and idx: "\<forall>t\<in>set Terms. indexable P t"
  shows "\<exists>out. det Terms P = Inr out \<and> length out = length Terms \<and>
           (\<forall>s\<in>set out. s = None \<or> (\<exists>t\<in>set Terms. s = Some t))"
  using assms(1)
proof (cases rule: orderings_cases)
  case 1
  from keyed_lex [OF idx]
  have "\<exists>out. determine_with compare_by_lex Terms P = Inr out \<and> length out = length Terms \<and>
           (\<forall>s\<in>set out. s = None \<or> (\<exists>t\<in>set Terms. s = Some t))"
    by (rule determine_with_slots)
  then show ?thesis by (simp only: 1 determine_by_lex_def)
next
  case 2
  from keyed_glex [OF idx]
  have "\<exists>out. determine_with compare_by_glex Terms P = Inr out \<and> length out = length Terms \<and>
           (\<forall>s\<in>set out. s = None \<or> (\<exists>t\<in>set Terms. s = Some t))"
    by (rule determine_with_slots)
  then show ?thesis by (simp only: 2 determine_by_glex_def)
next
  case 3
  from keyed_grevlex [OF idx]
  have "\<exists>out. determine_with compare_by_grevlex Terms P = Inr out \<and> length out = length Terms \<and>
           (\<forall>s\<in>set out. s = None \<or> (\<exists>t\<in>set Terms. s = Some t))"
    by (rule determine_with_slots)
  then show ?thesis by (simp only: 3 determine_by_grevlex_def)
qed

theorem determine_length_and_slots_witness:
  "(compare_by_glex, determine_by_glex) \<in> orderings \<and>
   list_all (indexable [0, 1]) [[1, 0], [1, 0 :: int]] \<and>
   (\<exists>out. determine_by_glex [[1, 0], [1, 0]] [0, 1] = Inr out \<and>
      length out = length [[1, 0], [1, 0 :: int]] \<and>
      (\<forall>s\<in>set out. s = None \<or> (\<exists>t\<in>set [[1, 0], [1, 0]]. s = Some t))) \<and>
   (compare_by_lex, determine_by_lex) \<in> orderings \<and>
   list_all (indexable [0, 1]) ([] :: int list list) \<and>
   (\<exists>out. determine_by_lex [] [0, 1] = Inr out \<and>
      length out = length ([] :: int list list) \<and>
      (\<forall>s\<in>set out. s = None \<or> (\<exists>t\<in>set ([] :: int list list). s = Some t)))"
proof -
  have h1: "(compare_by_glex, determine_by_glex) \<in> orderings"
    by (simp add: orderings_def)
  have h2: "\<forall>t\<in>set [[1, 0], [1, 0]]. indexable [0, 1] t"
    by (simp add: in_range_def)
  have e1: "(compare_by_lex, determine_by_lex) \<in> orderings"
    by (simp add: orderings_def)
  have e2: "\<forall>t\<in>set ([] :: int list list). indexable [0, 1] t"
    by simp
  from determine_length_and_slots [OF h1 h2] determine_length_and_slots [OF e1 e2] h1 h2 e1
  show ?thesis
    by (simp add: list_all_iff)
qed

section \<open>Scenarios\<close>

text \<open>
  C3 (Scenario A), as the specification words it, fails: on the textbook input
  \<open>determine_by_lex\<close> does not put \<open>[5,1,4]\<close> last.
\<close>

theorem scenario_A_counterexample:
  "\<not> scenario_A_described
       (determine_by_lex [[2, 8, 0], [5, 1, 4], [1, 1, 3], [1, 4, 0]] [2, 1, 0])"
  by code_simp

text \<open>
  C3 (Scenario A), amended: on the textbook input \<open>determine_by_lex\<close> returns
  \<open>[[5,1,4], [1,1,3], [2,8,0], [1,4,0]]\<close>, the lex order from the largest monomial to the
  smallest: \<open>[5,1,4]\<close> comes first, \<open>[1,4,0]\<close> last.
\<close>

theorem scenario_A_result:
  "determine_by_lex [[2, 8, 0], [5, 1, 4], [1, 1, 3], [1, 4, 0]] [2, 1, 0] =
     Inr [Some [5, 1, 4], Some [1, 1, 3], Some [2, 8, 0], Some [1, 4, 0]]"
  by code_simp

text \<open>
  C8 (rank collision). For \<open>Terms = [[1,0],[1,0]]\<close> and \<open>P = [0,1]\<close>, under each of the
  three orderings both terms get count \<open>0\<close>, both are written to slot \<open>0\<close>, and the
  returned list is \<open>[[1,0], None]\<close>: one slot holds the duplicated vector, the other was
  never written.
\<close>

theorem rank_collision:
  "count_all compare_by_lex [0, 1] [[1, 0], [1, 0]] [[1, 0], [1, 0]] = Inr [0, 0] \<and>
   count_all compare_by_glex [0, 1] [[1, 0], [1, 0]] [[1, 0], [1, 0]] = Inr [0, 0] \<and>
   count_all compare_by_grevlex [0, 1] [[1, 0], [1, 0]] [[1, 0], [1, 0]] = Inr [0, 0] \<and>
   determine_by_lex [[1, 0], [1, 0]] [0, 1] = Inr [Some [1, 0], None] \<and>
   determine_by_glex [[1, 0], [1, 0]] [0, 1] = Inr [Some [1, 0], None] \<and>
   determine_by_grevlex [[1, 0], [1, 0]] [0, 1] = Inr [Some [1, 0], None]"
  by code_simp

end
